theory Spec2Isabelle
  imports Complex_Main "HOL-Library.Word" "HOL-Library.Char_ord" "HOL-Library.List_Lexorder"
    "HOL-Library.Monad_Syntax"
begin

unbundle bit_operations_syntax

section \<open>Data model of input\_core.cpp\<close>

text \<open>
  A value of the C++ type \<open>float\<close> is a real number. In the model of the engine the
  comparisons, the negation and the four operations are exact, and a division whose divisor
  is zero is an error value (see \<open>ApplyDeadzone\<close>). Where rounding decides what the code
  does, the deadzone test of \<open>ApplyDeadzone\<close>, the same lines are given a second time with
  binary32 arithmetic (see \<open>ApplyDeadzone_b32\<close>). \<open>s16\<close> and \<open>u32\<close> are machine words.
\<close>

type_synonym float = real
type_synonym s16 = "16 word"
type_synonym u32 = "32 word"

text \<open>
  \<open>Settings::InputDeviceMapping\<close> is declared in a header that is not part of this
  file. The fields below are the ones input\_core.cpp reads (\<open>framework\<close>, \<open>device\<close>,
  \<open>number\<close>, \<open>key\<close>), and the enumerators are the ones it names; \<open>OtherFramework\<close>
  and \<open>OtherDevice\<close> stand for every value the code does not name, which the
  \<open>switch\<close> of \<open>GenerateUniqueDevices\<close> lets fall through.
\<close>

datatype DeviceFramework = SDL | OtherFramework
datatype Device = Keyboard | Gamepad | OtherDevice

record InputDeviceMapping =
  framework :: DeviceFramework
  number :: int
  device :: Device
  key :: string

text \<open>\<open>Service::HID::PadState\<close>: the code only touches its 32-bit field \<open>hex\<close>.\<close>

record PadState =
  hex :: u32

datatype error =
    NullDevice
  | MappingTargetOutOfRange
  | DivisionByZeroMagnitude
  | DivisionByZeroRange
  | CirclePadOutOfRange

section \<open>ApplyDeadzone\<close>

definition magnitude :: "float \<Rightarrow> float \<Rightarrow> float" where
  "magnitude x y = sqrt ((x * x) + (y * y))"

text \<open>
  The two divisors of the rescaling branch are \<open>magnitude\<close> and \<open>1 - dead_zone\<close>. A zero
  divisor is reported as the error naming the divisor, in the order in which the source
  divides.
\<close>

definition ApplyDeadzone :: "float \<Rightarrow> float \<Rightarrow> float \<Rightarrow> error + (float \<times> float)" where
  "ApplyDeadzone x y dead_zone =
     (let magnitude = magnitude x y in
      if magnitude < dead_zone then Inr (0, 0)
      else if magnitude = 0 then Inl DivisionByZeroMagnitude
      else
        let normalized_x = x / magnitude;
            normalized_y = y / magnitude
        in if 1 - dead_zone = 0 then Inl DivisionByZeroRange
           else Inr (normalized_x * ((magnitude - dead_zone) / (1 - dead_zone)),
                     normalized_y * ((magnitude - dead_zone) / (1 - dead_zone))))"

section \<open>ApplyDeadzone in binary32 arithmetic\<close>

text \<open>
  Whether \<open>magnitude < dead_zone\<close> holds can depend on rounding, so lines 254 to 262 are
  also given with the arithmetic of the C++ type: every operation delivers the exact result
  rounded to the nearest binary32 number, ties to the even significand (IEEE 754 single
  precision, one rounding per operation). A binary32 number is \<open>n * pow2 (e - 23)\<close> with
  \<open>\<bar>n\<bar> < 2 ^ 24\<close> and \<open>- 126 \<le> e \<le> 127\<close>; below \<open>pow2 (- 126)\<close> the spacing stays
  \<open>pow2 (- 149)\<close>.
  A result beyond the largest finite number, and a quotient by zero, are not finite
  numbers (an infinity or a NaN): the operation returns \<open>None\<close>, and so does every
  computation that uses it.
\<close>

definition pow2 :: "int \<Rightarrow> real" where
  "pow2 e = (if 0 \<le> e then 2 ^ nat e else 1 / 2 ^ nat (- e))"

text \<open>Rounding to the nearest integer, a tie to the even one.\<close>

definition rne :: "real \<Rightarrow> int" where
  "rne q = (let f = \<lfloor>q\<rfloor>; d = q - of_int f
            in if d < 1 / 2 then f else if d > 1 / 2 then f + 1 else if even f then f else f + 1)"

definition b32_exponent :: "real \<Rightarrow> int" where
  "b32_exponent r = max (- 126) \<lfloor>log 2 \<bar>r\<bar>\<rfloor>"

definition round_b32 :: "real \<Rightarrow> real" where
  "round_b32 r = (if r = 0 then 0
                  else of_int (rne (r / pow2 (b32_exponent r - 23))) * pow2 (b32_exponent r - 23))"

definition FLT_MAX :: real where
  "FLT_MAX = (2 ^ 24 - 1) * 2 ^ 104"

text \<open>\<open>fl r\<close> is the binary32 result of an operation whose exact result is \<open>r\<close>.\<close>

definition fl :: "real \<Rightarrow> float option" where
  "fl r = (if \<bar>round_b32 r\<bar> \<le> FLT_MAX then Some (round_b32 r) else None)"

definition fdiv :: "float \<Rightarrow> float \<Rightarrow> float option" where
  "fdiv a b = (if b = 0 then None else fl (a / b))"

definition magnitude_b32 :: "float \<Rightarrow> float \<Rightarrow> float option" where
  "magnitude_b32 x y = do {
     xx \<leftarrow> fl (x * x);
     yy \<leftarrow> fl (y * y);
     sum \<leftarrow> fl (xx + yy);
     fl (sqrt sum)
   }"

definition ApplyDeadzone_b32 :: "float \<Rightarrow> float \<Rightarrow> float \<Rightarrow> (float \<times> float) option" where
  "ApplyDeadzone_b32 x y dead_zone = do {
     magnitude \<leftarrow> magnitude_b32 x y;
     if magnitude < dead_zone then Some (0, 0)
     else do {
       normalized_x \<leftarrow> fdiv x magnitude;
       normalized_y \<leftarrow> fdiv y magnitude;
       x_num \<leftarrow> fl (magnitude - dead_zone);
       x_den \<leftarrow> fl (1 - dead_zone);
       x_scale \<leftarrow> fdiv x_num x_den;
       x' \<leftarrow> fl (normalized_x * x_scale);
       y_num \<leftarrow> fl (magnitude - dead_zone);
       y_den \<leftarrow> fl (1 - dead_zone);
       y_scale \<leftarrow> fdiv y_num y_den;
       y' \<leftarrow> fl (normalized_y * y_scale);
       Some (x', y')
     }
   }"

section \<open>Declarations the engine takes from its headers\<close>

text \<open>
  input\_core.cpp uses constants and operators declared in headers outside this file:
  the detection threshold, the full scale of the circle pad, the table of mapping targets,
  the list of analog targets, the four circle-pad targets, \<open>operator==\<close> and
  \<open>operator<\<close> of \<open>InputDeviceMapping\<close>, and its default-constructed value. They are
  parameters of the model, collected in one record, so every theorem holds for whatever
  the headers define.

  \<open>std::map\<close> is a finite map whose keys are compared by value; \<open>operator[]\<close> inserts a
  value-initialised entry for an absent key, which \<open>map_index\<close> writes out.
\<close>

record Decls =
  input_detect_threshold :: float
  MAX_CIRCLEPAD_POS :: float
  mapping_targets :: "PadState list"
  analog_inputs :: "PadState list"
  PAD_CIRCLE_UP :: PadState
  PAD_CIRCLE_DOWN :: PadState
  PAD_CIRCLE_LEFT :: PadState
  PAD_CIRCLE_RIGHT :: PadState
  mapping_eq :: "InputDeviceMapping \<Rightarrow> InputDeviceMapping \<Rightarrow> bool"
  mapping_less :: "InputDeviceMapping \<Rightarrow> InputDeviceMapping \<Rightarrow> bool"
  default_mapping :: InputDeviceMapping

text \<open>\<open>Settings::values\<close>, as far as this file reads it.\<close>

record Settings_values =
  input_mappings :: "InputDeviceMapping list"
  pad_circle_modifier :: InputDeviceMapping
  pad_circle_modifier_scale :: float
  pad_circle_deadzone :: float

definition map_index :: "'v \<Rightarrow> ('k \<rightharpoonup> 'v) \<Rightarrow> 'k \<Rightarrow> 'v \<times> ('k \<rightharpoonup> 'v)" where
  "map_index dflt m k = (case m k of None \<Rightarrow> (dflt, m(k \<mapsto> dflt)) | Some v \<Rightarrow> (v, m))"

text \<open>\<open>emplace\<close> inserts only when the key is absent.\<close>

definition map_emplace :: "('k \<rightharpoonup> 'v) \<Rightarrow> 'k \<Rightarrow> 'v \<Rightarrow> ('k \<rightharpoonup> 'v)" where
  "map_emplace m k v = (case m k of None \<Rightarrow> m(k \<mapsto> v) | Some _ \<Rightarrow> m)"

section \<open>The engine state\<close>

text \<open>
  A device handle is a shared pointer to a driver object. The drivers are outside this
  file; a handle records the class of the object and a number that makes distinct objects
  distinct. \<open>next_device\<close> is the allocation counter of the model.

  The record holds the members that \<open>UpdateEmulatorInputs\<close> and \<open>ReloadSettings\<close> read
  or write. The touch sample, the timer event and the two mutexes are left out: the
  functions modelled here run one at a time and do not touch them.
\<close>

datatype InputDeviceInterface = KeyboardDevice nat | SDLJoystickDevice nat

record InputCore =
  devices :: "InputDeviceInterface list"
  main_keyboard :: "InputDeviceInterface option"
  next_device :: nat
  key_mappings :: "InputDeviceMapping \<rightharpoonup> PadState list"
  keys_pressed :: "PadState \<rightharpoonup> bool"
  pad_state :: PadState
  circle_pad :: "s16 \<times> s16"

text \<open>
  One device's snapshot, \<open>std::map<InputDeviceMapping, float>\<close>, is the list of its entries
  in iteration order.
\<close>

type_synonym input_state = "(InputDeviceMapping \<times> float) list"

section \<open>UpdateEmulatorInputs\<close>

subsection \<open>Circle pad raw values (lines 68 to 92)\<close>

fun analog_target :: "Decls \<Rightarrow> float \<Rightarrow> PadState \<Rightarrow> float \<times> float \<Rightarrow> float \<times> float" where
  "analog_target D strength emulator_input (left_x, left_y) =
     (if strength = 0 then (left_x, left_y)
      else if emulator_input = PAD_CIRCLE_UP D then (left_x, - strength)
      else if emulator_input = PAD_CIRCLE_DOWN D then (left_x, strength)
      else if emulator_input = PAD_CIRCLE_LEFT D then (- strength, left_y)
      else if emulator_input = PAD_CIRCLE_RIGHT D then (strength, left_y)
      else (left_x, left_y))"

text \<open>
  The accumulator of the first pass: the mapping table (which \<open>operator[]\<close> may extend),
  \<open>left_x\<close>, \<open>left_y\<close> and \<open>circle_pad_modifier\<close>.
\<close>

type_synonym analog_acc = "(InputDeviceMapping \<rightharpoonup> PadState list) \<times> float \<times> float \<times> float"

fun analog_button :: "Decls \<Rightarrow> Settings_values \<Rightarrow> InputDeviceMapping \<times> float \<Rightarrow> analog_acc \<Rightarrow> analog_acc" where
  "analog_button D V (first, strength) (km, left_x, left_y, circle_pad_modifier) =
     (let (emulator_inputs, km') = map_index [] km first;
          (left_x', left_y') = fold (analog_target D strength) emulator_inputs (left_x, left_y)
      in (km', left_x', left_y',
          if mapping_eq D first (pad_circle_modifier V)
          then (if strength > input_detect_threshold D then pad_circle_modifier_scale V else 1)
          else circle_pad_modifier))"

definition analog_pass :: "Decls \<Rightarrow> Settings_values \<Rightarrow> input_state list \<Rightarrow> analog_acc \<Rightarrow> analog_acc" where
  "analog_pass D V inputs = fold (\<lambda>input_device. fold (analog_button D V) input_device) inputs"

subsection \<open>Conversion of the stick values to s16 (lines 98 to 101)\<close>

text \<open>
  Assigning a \<open>float\<close> to an \<open>s16\<close> discards the fraction; the conversion is undefined when
  the truncated value does not fit, which the model reports as \<open>None\<close>.
\<close>

definition trunc :: "float \<Rightarrow> int" where
  "trunc r = (if 0 \<le> r then \<lfloor>r\<rfloor> else \<lceil>r\<rceil>)"

definition to_s16 :: "float \<Rightarrow> s16 option" where
  "to_s16 r = (if - 32768 \<le> trunc r \<and> trunc r \<le> 32767 then Some (word_of_int (trunc r)) else None)"

subsection \<open>Digital buttons (lines 104 to 123)\<close>

text \<open>
  The two conditions are evaluated left to right and \<open>&&\<close> short-circuits, so
  \<open>keys_pressed[emulator_input]\<close> is indexed (and a missing entry inserted) only when the
  comparison before it holds. \<open>abs(strength)\<close> is the absolute value of the float.
\<close>

type_synonym digital_acc = "(InputDeviceMapping \<rightharpoonup> PadState list) \<times> PadState \<times> (PadState \<rightharpoonup> bool)"

fun digital_target :: "Decls \<Rightarrow> float \<Rightarrow> PadState \<Rightarrow> PadState \<times> (PadState \<rightharpoonup> bool) \<Rightarrow> PadState \<times> (PadState \<rightharpoonup> bool)" where
  "digital_target D strength emulator_input (pad, kp) =
     (if emulator_input \<in> set (analog_inputs D) then (pad, kp)
      else
        let (released, kp1) =
              (if \<bar>strength\<bar> < input_detect_threshold D
               then (let (v, m) = map_index False kp emulator_input in (v = True, m))
               else (False, kp))
        in if released
           then (pad\<lparr>hex := hex pad AND NOT (hex emulator_input)\<rparr>, kp1(emulator_input \<mapsto> False))
           else
             let (pressed, kp2) =
                   (if \<bar>strength\<bar> \<ge> input_detect_threshold D
                    then (let (v, m) = map_index False kp1 emulator_input in (v = False, m))
                    else (False, kp1))
             in if pressed
                then (pad\<lparr>hex := hex pad OR hex emulator_input\<rparr>, kp2(emulator_input \<mapsto> True))
                else (pad, kp2))"

fun digital_button :: "Decls \<Rightarrow> InputDeviceMapping \<times> float \<Rightarrow> digital_acc \<Rightarrow> digital_acc" where
  "digital_button D (first, strength) (km, pad, kp) =
     (let (emulator_inputs, km') = map_index [] km first;
          (pad', kp') = fold (digital_target D strength) emulator_inputs (pad, kp)
      in (km', pad', kp'))"

definition digital_pass :: "Decls \<Rightarrow> input_state list \<Rightarrow> digital_acc \<Rightarrow> digital_acc" where
  "digital_pass D inputs = fold (\<lambda>input_device. fold (digital_button D) input_device) inputs"

subsection \<open>The whole update\<close>

definition UpdateEmulatorInputs :: "Decls \<Rightarrow> Settings_values \<Rightarrow> input_state list \<Rightarrow> InputCore \<Rightarrow> error + InputCore" where
  "UpdateEmulatorInputs D V inputs c =
     (let (km1, left_x, left_y, circle_pad_modifier) = analog_pass D V inputs (key_mappings c, 0, 0, 1);
          deadzone = pad_circle_deadzone V
      in case ApplyDeadzone left_x left_y deadzone of
           Inl e \<Rightarrow> Inl e
         | Inr left_stick \<Rightarrow>
             (case to_s16 (fst left_stick * MAX_CIRCLEPAD_POS D * circle_pad_modifier) of
                None \<Rightarrow> Inl CirclePadOutOfRange
              | Some cx \<Rightarrow>
                  (case to_s16 (snd left_stick * MAX_CIRCLEPAD_POS D * - 1 * circle_pad_modifier) of
                     None \<Rightarrow> Inl CirclePadOutOfRange
                   | Some cy \<Rightarrow>
                       (let (km2, pad, kp) = digital_pass D inputs (km1, pad_state c, keys_pressed c)
                        in Inr (c\<lparr>key_mappings := km2, keys_pressed := kp, pad_state := pad,
                                  circle_pad := (cx, cy)\<rparr>)))))"

section \<open>Building the registry and the mapping table\<close>

definition CheckIfMappingExists :: "Decls \<Rightarrow> InputDeviceMapping list \<Rightarrow> InputDeviceMapping \<Rightarrow> bool" where
  "CheckIfMappingExists D unique_mapping mapping_to_check =
     list_ex (\<lambda>mapping. mapping_eq D mapping mapping_to_check) unique_mapping"

text \<open>
  A \<open>std::set\<close> is the list of its elements in increasing order. \<open>set_insert\<close> is
  \<open>std::set::insert\<close> for the comparison \<open>lt\<close>: an element equivalent to the new one keeps
  its place and the new one is dropped.
\<close>

fun set_insert :: "('a \<Rightarrow> 'a \<Rightarrow> bool) \<Rightarrow> 'a \<Rightarrow> 'a list \<Rightarrow> 'a list" where
  "set_insert lt x [] = [x]"
| "set_insert lt x (y # ys) =
     (if lt x y then x # y # ys
      else if lt y x then y # set_insert lt x ys
      else y # ys)"

definition GatherUniqueMappings :: "Decls \<Rightarrow> Settings_values \<Rightarrow> InputDeviceMapping list" where
  "GatherUniqueMappings D V =
     (let unique_mappings =
            fold (\<lambda>mapping unique_mappings.
                    if \<not> CheckIfMappingExists D unique_mappings mapping
                    then set_insert (mapping_less D) mapping unique_mappings
                    else unique_mappings)
                 (input_mappings V) []
      in if \<not> CheckIfMappingExists D unique_mappings (pad_circle_modifier V)
         then set_insert (mapping_less D) (pad_circle_modifier V) unique_mappings
         else unique_mappings)"

text \<open>
  \<open>BuildKeyMapping\<close>: index \<open>i\<close> runs over \<open>input_mappings\<close> and reads
  \<open>mapping_targets[i]\<close>; the two lists are walked together, and a target index past the end
  of the table is an error.
\<close>

fun build_entries :: "InputDeviceMapping list \<Rightarrow> PadState list \<Rightarrow>
    (InputDeviceMapping \<rightharpoonup> PadState list) \<Rightarrow> error + (InputDeviceMapping \<rightharpoonup> PadState list)" where
  "build_entries [] targets km = Inr km"
| "build_entries (k # ks) [] km = Inl MappingTargetOutOfRange"
| "build_entries (k # ks) (val # targets) km =
     (let km1 = map_emplace km k [];
          (v, km2) = map_index [] km1 k
      in build_entries ks targets (km2(k \<mapsto> v @ [val])))"

definition BuildKeyMapping :: "Decls \<Rightarrow> Settings_values \<Rightarrow> InputCore \<Rightarrow> error + InputCore" where
  "BuildKeyMapping D V c =
     (case build_entries (input_mappings V) (mapping_targets D) Map.empty of
        Inl e \<Rightarrow> Inl e
      | Inr km \<Rightarrow> Inr (c\<lparr>key_mappings := km\<rparr>))"

text \<open>
  \<open>GenerateUniqueDevices\<close>: the local \<open>input\<close> starts as a null pointer and keeps its value
  when neither branch of the \<open>switch\<close> assigns it. \<open>InitDevice\<close> is a call into the driver;
  on a null pointer it is the error \<open>NullDevice\<close>.
\<close>

fun generate_devices :: "InputDeviceMapping list \<Rightarrow> InputDeviceInterface option \<Rightarrow> InputCore \<Rightarrow> error + InputCore" where
  "generate_devices [] input c = Inr c"
| "generate_devices (mapping # rest) input c =
     (let (input', c') =
            (case framework mapping of
               SDL \<Rightarrow>
                 (if device mapping = Keyboard
                  then (Some (KeyboardDevice (next_device c)),
                        c\<lparr>main_keyboard := Some (KeyboardDevice (next_device c)),
                          next_device := Suc (next_device c)\<rparr>)
                  else if device mapping = Gamepad
                  then (Some (SDLJoystickDevice (next_device c)),
                        c\<lparr>next_device := Suc (next_device c)\<rparr>)
                  else (input, c))
             | OtherFramework \<Rightarrow> (input, c))
      in case input' of
           None \<Rightarrow> Inl NullDevice
         | Some d \<Rightarrow> generate_devices rest input' (c'\<lparr>devices := devices c' @ [d]\<rparr>))"

definition GenerateUniqueDevices :: "Decls \<Rightarrow> Settings_values \<Rightarrow> InputCore \<Rightarrow> error + InputCore" where
  "GenerateUniqueDevices D V c =
     (let uniqueMappings = GatherUniqueMappings D V
      in generate_devices uniqueMappings None (c\<lparr>devices := []\<rparr>))"

definition ParseSettings :: "Decls \<Rightarrow> Settings_values \<Rightarrow> InputCore \<Rightarrow> error + InputCore" where
  "ParseSettings D V c =
     (case GenerateUniqueDevices D V c of
        Inl e \<Rightarrow> Inl e
      | Inr c' \<Rightarrow> BuildKeyMapping D V c')"

definition ReloadSettings :: "Decls \<Rightarrow> Settings_values \<Rightarrow> InputCore \<Rightarrow> error + InputCore" where
  "ReloadSettings D V c =
     (if devices c = [] then Inr c
      else ParseSettings D V (c\<lparr>devices := []\<rparr>))"

section \<open>DetectInput\<close>

text \<open>
  The drivers and the clock are outside this file. \<open>DetectInput\<close> sees them through what
  \<open>ProcessInput\<close> returns and through the elapsed time it measures, so the model takes
  these readings as its input: the snapshot of every device at the baseline (lines 210 to
  215), and for the \<open>n\<close>-th round of the \<open>while\<close> loop the elapsed milliseconds and the
  snapshot of every device. The lists follow the order of \<open>GetAllDevices\<close>. \<open>Clear\<close>
  acts on the drivers only. The callback \<open>update_gui\<close> is called once at the start of
  every round; what it does is up to the caller, and the model counts its calls.
\<close>

record DetectWorld =
  baseline_inputs :: "input_state list"
  elapsed :: "nat \<Rightarrow> int"
  polled :: "nat \<Rightarrow> input_state list"

definition baseline_states :: "Decls \<Rightarrow> input_state list \<Rightarrow> (InputDeviceMapping \<rightharpoonup> bool)" where
  "baseline_states D devs =
     fold (\<lambda>current_state.
             fold (\<lambda>i current_input_states.
                     map_emplace current_input_states (fst i) (snd i > input_detect_threshold D))
                  current_state)
          devs Map.empty"

text \<open>
  The body of the inner \<open>for\<close> loop (lines 229 to 234). \<open>Inl\<close> is the \<open>return i.first\<close> of
  line 231, \<open>Inr\<close> the states after the whole snapshot has been scanned.
\<close>

fun scan_inputs :: "Decls \<Rightarrow> input_state \<Rightarrow> (InputDeviceMapping \<rightharpoonup> bool) \<Rightarrow>
    InputDeviceMapping + (InputDeviceMapping \<rightharpoonup> bool)" where
  "scan_inputs D [] cur = Inr cur"
| "scan_inputs D (i # inputs) cur =
     (let (fresh, cur1) =
            (if snd i > input_detect_threshold D
             then (let (v, m) = map_index False cur (fst i) in (v = False, m))
             else (False, cur))
      in if fresh then Inl (fst i)
         else
           let (dropped, cur2) =
                 (if snd i < input_detect_threshold D
                  then (let (v, m) = map_index False cur1 (fst i) in (v = True, m))
                  else (False, cur1))
           in scan_inputs D inputs (if dropped then cur2(fst i \<mapsto> False) else cur2))"

fun scan_devices :: "Decls \<Rightarrow> input_state list \<Rightarrow> (InputDeviceMapping \<rightharpoonup> bool) \<Rightarrow>
    InputDeviceMapping + (InputDeviceMapping \<rightharpoonup> bool)" where
  "scan_devices D [] cur = Inr cur"
| "scan_devices D (inputs # devs) cur =
     (case scan_inputs D inputs cur of
        Inl found \<Rightarrow> Inl found
      | Inr cur' \<Rightarrow> scan_devices D devs cur')"

text \<open>
  \<open>DetectInput\<close> has two return statements; the result records which one was taken.
  The loop need not end (the clock may never reach \<open>max_time\<close>), so it is a partial
  function: \<open>None\<close> means that it does not return.

  The argument \<open>n\<close> of the loop is the number of calls of \<open>update_gui\<close> made so far; the
  round that starts with \<open>n\<close> calls made reads \<open>elapsed W n\<close> and \<open>polled W n\<close>. The loop
  returns, next to the result, the number of calls of \<open>update_gui\<close> it has made when it
  returns: a return in round \<open>n\<close>, by either statement, has made \<open>n + 1\<close> calls.
\<close>

datatype detect_result = Detected InputDeviceMapping | NothingDetected InputDeviceMapping

fun returned :: "detect_result \<Rightarrow> InputDeviceMapping" where
  "returned (Detected i) = i"
| "returned (NothingDetected input_device) = input_device"

partial_function (option) detect_loop :: "Decls \<Rightarrow> DetectWorld \<Rightarrow> int \<Rightarrow> InputDeviceMapping \<Rightarrow>
    nat \<Rightarrow> (InputDeviceMapping \<rightharpoonup> bool) \<Rightarrow> (detect_result \<times> nat) option" where
  "detect_loop D W max_time input_device n current_input_states =
     (if key input_device \<noteq> [] then Some (NothingDetected input_device, n)
      else if elapsed W n \<ge> max_time then Some (NothingDetected input_device, Suc n)
      else case scan_devices D (polled W n) current_input_states of
             Inl found \<Rightarrow> Some (Detected found, Suc n)
           | Inr current_input_states' \<Rightarrow>
               detect_loop D W max_time input_device (Suc n) current_input_states')"

text \<open>
  \<open>DetectInput_run\<close> is the whole function with its effect on the callback,
  \<open>DetectInput_return\<close> the return statement it leaves through, \<open>DetectInput\<close> the value
  the caller receives.
\<close>

definition DetectInput_run :: "Decls \<Rightarrow> DetectWorld \<Rightarrow> int \<Rightarrow> (detect_result \<times> nat) option" where
  "DetectInput_run D W max_time =
     detect_loop D W max_time (default_mapping D) 0 (baseline_states D (baseline_inputs W))"

definition DetectInput_return :: "Decls \<Rightarrow> DetectWorld \<Rightarrow> int \<Rightarrow> detect_result option" where
  "DetectInput_return D W max_time = map_option fst (DetectInput_run D W max_time)"

definition DetectInput :: "Decls \<Rightarrow> DetectWorld \<Rightarrow> int \<Rightarrow> InputDeviceMapping option" where
  "DetectInput D W max_time = map_option returned (DetectInput_return D W max_time)"

section \<open>Notions used to state the properties\<close>

text \<open>The targets a physical input drives: what \<open>key_mappings[first]\<close> evaluates to.\<close>

definition targets_of :: "(InputDeviceMapping \<rightharpoonup> PadState list) \<Rightarrow> InputDeviceMapping \<Rightarrow> PadState list" where
  "targets_of km k = (case km k of None \<Rightarrow> [] | Some v \<Rightarrow> v)"

text \<open>The level a strength has for the edge detector.\<close>

definition is_pressed :: "Decls \<Rightarrow> float \<Rightarrow> bool" where
  "is_pressed D s = (\<bar>s\<bar> \<ge> input_detect_threshold D)"

text \<open>
  For \<open>DetectInput\<close>. An input is active at the baseline when the first baseline sample
  that carries it is above the threshold. A list of samples drops an input when it holds a
  sample of that input below the threshold. \<open>polled_before W n\<close> lists, in polling order,
  the samples of the rounds before round \<open>n\<close>.
\<close>

definition active_at_baseline :: "Decls \<Rightarrow> input_state list \<Rightarrow> InputDeviceMapping \<Rightarrow> bool" where
  "active_at_baseline D devs k =
     (case map_of (concat devs) k of None \<Rightarrow> False | Some s \<Rightarrow> s > input_detect_threshold D)"

definition dropped_in :: "Decls \<Rightarrow> input_state \<Rightarrow> InputDeviceMapping \<Rightarrow> bool" where
  "dropped_in D h k = list_ex (\<lambda>i. fst i = k \<and> snd i < input_detect_threshold D) h"

definition polled_before :: "DetectWorld \<Rightarrow> nat \<Rightarrow> input_state" where
  "polled_before W n = concat (map (\<lambda>m. concat (polled W m)) [0..<n])"

text \<open>
  The relation the loop keeps between the samples \<open>h\<close> polled so far and the map
  \<open>current_input_states\<close>: an input is recorded as active exactly when it was active at
  the baseline and no sample so far has dropped it.
\<close>

definition tracks :: "Decls \<Rightarrow> DetectWorld \<Rightarrow> input_state \<Rightarrow> (InputDeviceMapping \<rightharpoonup> bool) \<Rightarrow> bool" where
  "tracks D W h cur =
     (\<forall>k. (cur k = Some True) = (active_at_baseline D (baseline_inputs W) k \<and> \<not> dropped_in D h k))"

text \<open>
  A round is quiet when each of its samples above the threshold belongs to an input that
  was active at the baseline and has not been dropped by any sample polled before it:
  no input crosses the threshold relative to its baseline in that round.
\<close>

definition quiet_round :: "Decls \<Rightarrow> DetectWorld \<Rightarrow> nat \<Rightarrow> bool" where
  "quiet_round D W j =
     (let xs = concat (polled W j)
      in list_all (\<lambda>i. snd (xs ! i) > input_detect_threshold D \<longrightarrow>
                     active_at_baseline D (baseline_inputs W) (fst (xs ! i))
                     \<and> \<not> dropped_in D (polled_before W j @ take i xs) (fst (xs ! i)))
           [0..<length xs])"

section \<open>A sample configuration\<close>

text \<open>
  Concrete values on which the model is run: two keys of a keyboard, one gamepad button
  as the modifier, and values for the declarations of the headers.
\<close>

definition KeyA :: InputDeviceMapping where
  "KeyA = \<lparr>framework = SDL, number = 0, device = Keyboard, key = ''A''\<rparr>"

definition KeyB :: InputDeviceMapping where
  "KeyB = \<lparr>framework = SDL, number = 0, device = Keyboard, key = ''B''\<rparr>"

definition PadButton :: InputDeviceMapping where
  "PadButton = \<lparr>framework = SDL, number = 0, device = Gamepad, key = ''button 1''\<rparr>"

definition PAD_A :: PadState where
  "PAD_A = \<lparr>hex = 1\<rparr>"

definition PAD_B :: PadState where
  "PAD_B = \<lparr>hex = 2\<rparr>"

definition sample_decls :: Decls where
  "sample_decls =
     \<lparr>input_detect_threshold = 45 / 100,
      MAX_CIRCLEPAD_POS = 156,
      mapping_targets = [PAD_A, PAD_B],
      analog_inputs = [\<lparr>hex = 1073741824\<rparr>, \<lparr>hex = 2147483648\<rparr>, \<lparr>hex = 536870912\<rparr>, \<lparr>hex = 268435456\<rparr>],
      PAD_CIRCLE_UP = \<lparr>hex = 1073741824\<rparr>,
      PAD_CIRCLE_DOWN = \<lparr>hex = 2147483648\<rparr>,
      PAD_CIRCLE_LEFT = \<lparr>hex = 536870912\<rparr>,
      PAD_CIRCLE_RIGHT = \<lparr>hex = 268435456\<rparr>,
      mapping_eq = (=),
      mapping_less = (\<lambda>a b. key a < key b),
      default_mapping = \<lparr>framework = SDL, number = 0, device = Keyboard, key = []\<rparr>\<rparr>"

definition sample_settings :: Settings_values where
  "sample_settings =
     \<lparr>input_mappings = [KeyA, KeyB],
      pad_circle_modifier = PadButton,
      pad_circle_modifier_scale = 1 / 2,
      pad_circle_deadzone = 1 / 10\<rparr>"

text \<open>An engine with two devices whose latch holds \<open>PAD_A\<close> pressed.\<close>

definition sample_core :: InputCore where
  "sample_core =
     \<lparr>devices = [KeyboardDevice 0, SDLJoystickDevice 1],
      main_keyboard = Some (KeyboardDevice 0),
      next_device = 2,
      key_mappings = [KeyA \<mapsto> [PAD_A], KeyB \<mapsto> [PAD_B]],
      keys_pressed = [PAD_A \<mapsto> True],
      pad_state = \<lparr>hex = 1\<rparr>,
      circle_pad = (0, 0)\<rparr>"

text \<open>An engine that has no device yet.\<close>

definition idle_core :: InputCore where
  "idle_core =
     \<lparr>devices = [],
      main_keyboard = None,
      next_device = 0,
      key_mappings = Map.empty,
      keys_pressed = [PAD_A \<mapsto> True],
      pad_state = \<lparr>hex = 1\<rparr>,
      circle_pad = (0, 0)\<rparr>"

text \<open>An engine whose only mapping sends \<open>KeyA\<close> to the Up direction of the circle pad.\<close>

definition stick_core :: InputCore where
  "stick_core =
     \<lparr>devices = [KeyboardDevice 0],
      main_keyboard = Some (KeyboardDevice 0),
      next_device = 1,
      key_mappings = [KeyA \<mapsto> [PAD_CIRCLE_UP sample_decls]],
      keys_pressed = Map.empty,
      pad_state = \<lparr>hex = 0\<rparr>,
      circle_pad = (0, 0)\<rparr>"

text \<open>
  Two runs of the outside world, with a round every 20 or 10 milliseconds. In the first
  \<open>KeyA\<close> is held from the baseline on. In the second \<open>KeyA\<close> is held at the baseline,
  released in round 1 and pressed again from round 2 on.
\<close>

definition held_world :: DetectWorld where
  "held_world =
     \<lparr>baseline_inputs = [[(KeyA, 1)]],
      elapsed = (\<lambda>n. 20 * int n),
      polled = (\<lambda>n. [[(KeyA, 1)]])\<rparr>"

definition rearm_world :: DetectWorld where
  "rearm_world =
     \<lparr>baseline_inputs = [[(KeyA, 1)]],
      elapsed = (\<lambda>n. 10 * int n),
      polled = (\<lambda>n. if n = 1 then [[(KeyA, 0)]] else [[(KeyA, 1)]])\<rparr>"




section \<open>Properties\<close>

subsection \<open>ApplyDeadzone\<close>

lemma magnitude_zero [simp]: "magnitude 0 0 = 0"
  by (simp add: magnitude_def)

text \<open>Evaluating one binary32 operation: the exponent and the rounded significand.\<close>

lemma pow2_powr: "pow2 e = 2 powr (of_int e)"
  by (simp add: pow2_def powr_int)

lemma pow2_pos [simp]: "0 < pow2 e"
  by (simp add: pow2_def)

lemma b32_exponent_eqI:
  assumes "pow2 e \<le> \<bar>r\<bar>" and "\<bar>r\<bar> < pow2 (e + 1)" and "- 126 \<le> e"
  shows "b32_exponent r = e"
proof -
  have pos: "0 < \<bar>r\<bar>" using assms(1) pow2_pos [of e] by linarith
  have "\<lfloor>log 2 \<bar>r\<bar>\<rfloor> = e"
    using assms(1,2) pos by (simp add: floor_log_eq_powr_iff pow2_powr)
  then show ?thesis using assms(3) by (simp add: b32_exponent_def)
qed


lemma fl_eqI:
  assumes "pow2 e \<le> \<bar>r\<bar>" and "\<bar>r\<bar> < pow2 (e + 1)" and "- 126 \<le> e"
    and "rne (r / pow2 (e - 23)) = n"
    and "\<bar>of_int n * pow2 (e - 23)\<bar> \<le> FLT_MAX"
  shows "fl r = Some (of_int n * pow2 (e - 23))"
proof -
  have "0 < \<bar>r\<bar>" using assms(1) pow2_pos [of e] by linarith
  then have "r \<noteq> 0" by auto
  then have "round_b32 r = of_int n * pow2 (e - 23)"
    using b32_exponent_eqI [OF assms(1-3)] assms(4) by (simp add: round_b32_def)
  then show ?thesis using assms(5) by (simp add: fl_def)
qed

lemma fl_0 [simp]: "fl 0 = Some 0"
  by (simp add: fl_def round_b32_def FLT_MAX_def)




















text \<open>
  The exact \<open>ApplyDeadzone\<close> and the binary32 one agree at the inputs used below: the stick
  pushed up and at rest with deadzone 0.1, the origin with deadzone 0, and a full deflection
  to the right. In binary32, too, a positive deadzone keeps a zero magnitude out of the
  rescaling branch.
\<close>

lemma fl_1 [simp]: "fl 1 = Some 1"
  using fl_eqI [of 0 1 8388608] by (simp add: pow2_def rne_def FLT_MAX_def)

lemma fl_m1 [simp]: "fl (- 1) = Some (- 1)"
  using fl_eqI [of 0 "- 1" "- 8388608"] by (simp add: pow2_def rne_def FLT_MAX_def)

lemma fl_half [simp]: "fl (1 / 2) = Some (1 / 2)"
  using fl_eqI [of "- 1" "1 / 2" 8388608] by (simp add: pow2_def rne_def FLT_MAX_def)

lemma fl_nine_tenths: "fl (9 / 10) = Some (7549747 / 8388608)"
  using fl_eqI [of "- 1" "9 / 10" 15099494] by (simp add: pow2_def rne_def FLT_MAX_def)

lemma ApplyDeadzone_b32_up: "ApplyDeadzone_b32 0 (- 1) (1 / 10) = Some (0, - 1)"
  by (simp add: ApplyDeadzone_b32_def magnitude_b32_def fdiv_def fl_nine_tenths)

lemma ApplyDeadzone_b32_rest: "ApplyDeadzone_b32 0 0 (1 / 10) = Some (0, 0)"
  by (simp add: ApplyDeadzone_b32_def magnitude_b32_def)

lemma ApplyDeadzone_b32_origin: "ApplyDeadzone_b32 0 0 0 = None"
  by (simp add: ApplyDeadzone_b32_def magnitude_b32_def fdiv_def)

lemma ApplyDeadzone_b32_right: "ApplyDeadzone_b32 1 0 (1 / 2) = Some (1, 0)"
  by (simp add: ApplyDeadzone_b32_def magnitude_b32_def fdiv_def)

lemma ApplyDeadzone_b32_divisor:
  "0 < dead_zone \<Longrightarrow> magnitude_b32 x y = Some m \<Longrightarrow> \<not> m < dead_zone \<Longrightarrow> m \<noteq> 0"
  by auto

text \<open>
  Claim C10. With a positive deadzone the division by \<open>magnitude\<close> in the rescaling branch
  never has a zero divisor. The precondition is needed: for deadzone \<open>0\<close> and input
  \<open>(0, 0)\<close> the branch is taken with magnitude \<open>0\<close> and the code divides zero by zero.
\<close>

theorem ApplyDeadzone_magnitude_divisor:
  "(\<forall>x y dead_zone. 0 < dead_zone \<longrightarrow>
       ApplyDeadzone x y dead_zone \<noteq> Inl DivisionByZeroMagnitude
       \<and> (\<not> magnitude x y < dead_zone \<longrightarrow> magnitude x y \<noteq> 0))
   \<and> \<not> magnitude 0 0 < 0 \<and> magnitude 0 0 = 0
   \<and> ApplyDeadzone 0 0 0 = Inl DivisionByZeroMagnitude"
  by (auto simp: ApplyDeadzone_def Let_def)

theorem ApplyDeadzone_magnitude_divisor_witness:
  "(0::real) < 1 / 2 \<and> \<not> magnitude 1 0 < 1 / 2 \<and> magnitude 1 0 \<noteq> 0
   \<and> ApplyDeadzone 1 0 (1 / 2) = Inr (1, 0)"
proof -
  have m: "magnitude 1 0 = 1" by (simp add: magnitude_def)
  have "ApplyDeadzone 1 0 (1 / 2) \<noteq> Inl DivisionByZeroMagnitude"
    using ApplyDeadzone_magnitude_divisor by simp
  moreover have "ApplyDeadzone 1 0 (1 / 2) = Inr (1, 0)"
    by (simp add: ApplyDeadzone_def m)
  ultimately show ?thesis by (simp add: m)
qed

subsection \<open>The analog pass\<close>

text \<open>
  Claim C5. Two physical sources both mapped to the Right direction, reporting \<open>s1\<close> and
  then \<open>s2\<close> (nonzero) within one tick, in one snapshot or in the snapshots of two
  devices: the raw \<open>left_x\<close> handed to \<open>ApplyDeadzone\<close> is \<open>s2\<close>, the last value
  written, not the sum.
\<close>

theorem analog_pass_last_write_wins:
  assumes "km src1 = Some [PAD_CIRCLE_RIGHT D]" and "km src2 = Some [PAD_CIRCLE_RIGHT D]"
    and "PAD_CIRCLE_RIGHT D \<notin> {PAD_CIRCLE_UP D, PAD_CIRCLE_DOWN D, PAD_CIRCLE_LEFT D}"
    and "s2 \<noteq> 0"
  shows "fst (snd (analog_pass D V [[(src1, s1), (src2, s2)]] (km, 0, 0, 1))) = s2
       \<and> fst (snd (analog_pass D V [[(src1, s1)], [(src2, s2)]] (km, 0, 0, 1))) = s2"
  using assms by (auto simp: analog_pass_def map_index_def)

theorem analog_pass_last_write_wins_witness:
  "fst (snd (analog_pass sample_decls sample_settings [[(KeyA, 3 / 10), (KeyB, 9 / 10)]]
       ([KeyA \<mapsto> [PAD_CIRCLE_RIGHT sample_decls], KeyB \<mapsto> [PAD_CIRCLE_RIGHT sample_decls]], 0, 0, 1)))
     = 9 / 10
   \<and> fst (snd (analog_pass sample_decls sample_settings [[(KeyA, 3 / 10)], [(KeyB, 9 / 10)]]
       ([KeyA \<mapsto> [PAD_CIRCLE_RIGHT sample_decls], KeyB \<mapsto> [PAD_CIRCLE_RIGHT sample_decls]], 0, 0, 1)))
     = 9 / 10
   \<and> (9 / 10 :: real) \<noteq> 3 / 10 + 9 / 10"
proof -
  have d: "PAD_CIRCLE_RIGHT sample_decls
      \<notin> {PAD_CIRCLE_UP sample_decls, PAD_CIRCLE_DOWN sample_decls, PAD_CIRCLE_LEFT sample_decls}"
    by (simp add: sample_decls_def)
  have ne: "KeyA \<noteq> KeyB" by (simp add: KeyA_def KeyB_def)
  show ?thesis
    using analog_pass_last_write_wins
      [where km = "[KeyA \<mapsto> [PAD_CIRCLE_RIGHT sample_decls], KeyB \<mapsto> [PAD_CIRCLE_RIGHT sample_decls]]"
         and ?src1.0 = KeyA and ?src2.0 = KeyB and D = sample_decls and ?s2.0 = "9 / 10"
         and ?s1.0 = "3 / 10" and V = sample_settings, OF _ _ d]
      ne
    by simp
qed

subsection \<open>One tick with the stick pushed up, one tick at rest\<close>

lemma trunc_of_int [simp]: "trunc (of_int M) = M"
  by (simp add: trunc_def)

lemma to_s16_of_int: "- 32768 \<le> M \<Longrightarrow> M \<le> 32767 \<Longrightarrow> to_s16 (of_int M) = Some (word_of_int M)"
  by (simp add: to_s16_def)

lemma to_s16_0 [simp]: "to_s16 0 = Some 0"
  by (simp add: to_s16_def trunc_def)

lemma magnitude_down: "magnitude 0 (- 1) = 1"
  by (simp add: magnitude_def)

lemma ApplyDeadzone_up: "ApplyDeadzone 0 (- 1) (1 / 10) = Inr (0, - 1)"
  by (simp add: ApplyDeadzone_def magnitude_down)

lemma ApplyDeadzone_rest: "ApplyDeadzone 0 0 (1 / 10) = Inr (0, 0)"
  by (simp add: ApplyDeadzone_def)

lemma analog_pass_up:
  assumes "km k = Some [PAD_CIRCLE_UP D]" and "\<not> mapping_eq D k (pad_circle_modifier V)"
  shows "analog_pass D V [[(k, 1)]] (km, 0, 0, 1) = (km, 0, - 1, 1)"
  using assms by (simp add: analog_pass_def map_index_def)

lemma analog_pass_rest:
  assumes "km k = Some ts" and "\<not> mapping_eq D k (pad_circle_modifier V)"
  shows "analog_pass D V [[(k, 0)]] (km, 0, 0, 1) = (km, 0, 0, 1)"
proof -
  have "fold (analog_target D 0) ts (0, 0) = (0, 0)"
    by (induction ts) auto
  then show ?thesis using assms by (simp add: analog_pass_def map_index_def)
qed

lemma digital_pass_known_key:
  "km k = Some ts \<Longrightarrow> fst (digital_pass D [[(k, s)]] (km, pad, kp)) = km"
  by (simp add: digital_pass_def map_index_def split: prod.splits)

lemma sint_s16: "- 32768 \<le> M \<Longrightarrow> M \<le> 32767 \<Longrightarrow> sint (word_of_int M :: s16) = M"
  by (simp add: sint_sbintrunc' signed_take_bit_int_eq_self)

text \<open>The tick with strength 1: the cache becomes \<open>(0, M)\<close>, and the mapping table stays.\<close>

lemma tick_up:
  assumes k: "key_mappings c k = Some [PAD_CIRCLE_UP D]"
    and dz: "pad_circle_deadzone V = 1 / 10"
    and nomod: "\<not> mapping_eq D k (pad_circle_modifier V)"
    and M: "MAX_CIRCLEPAD_POS D = of_int M" "- 32768 \<le> M" "M \<le> 32767"
  shows "\<exists>c1. UpdateEmulatorInputs D V [[(k, 1)]] c = Inr c1
           \<and> circle_pad c1 = (0, word_of_int M) \<and> key_mappings c1 = key_mappings c"
proof -
  obtain km2 pad kp where dp:
    "digital_pass D [[(k, 1)]] (key_mappings c, pad_state c, keys_pressed c) = (km2, pad, kp)"
    by (metis prod_cases3)
  have km2: "km2 = key_mappings c"
    using digital_pass_known_key [where km = "key_mappings c" and k = k and D = D and s = 1
        and pad = "pad_state c" and kp = "keys_pressed c"] k dp
    by simp
  have "UpdateEmulatorInputs D V [[(k, 1)]] c =
        Inr (c\<lparr>key_mappings := km2, keys_pressed := kp, pad_state := pad,
               circle_pad := (0, word_of_int M)\<rparr>)"
    using analog_pass_up [where km = "key_mappings c" and k = k, OF k nomod] dp M
    by (simp add: UpdateEmulatorInputs_def dz ApplyDeadzone_up to_s16_of_int)
  then show ?thesis by (simp add: km2)
qed

text \<open>The tick with strength 0: the cache becomes \<open>(0, 0)\<close>.\<close>

lemma tick_rest:
  assumes k: "key_mappings c k = Some ts"
    and dz: "pad_circle_deadzone V = 1 / 10"
    and nomod: "\<not> mapping_eq D k (pad_circle_modifier V)"
  shows "\<exists>c2. UpdateEmulatorInputs D V [[(k, 0)]] c = Inr c2 \<and> circle_pad c2 = (0, 0)"
proof -
  obtain km3 pad3 kp3 where dp:
    "digital_pass D [[(k, 0)]] (key_mappings c, pad_state c, keys_pressed c) = (km3, pad3, kp3)"
    by (metis prod_cases3)
  have "UpdateEmulatorInputs D V [[(k, 0)]] c =
        Inr (c\<lparr>key_mappings := km3, keys_pressed := kp3, pad_state := pad3, circle_pad := (0, 0)\<rparr>)"
    using analog_pass_rest [where km = "key_mappings c" and k = k, OF k nomod] dp
    by (simp add: UpdateEmulatorInputs_def dz ApplyDeadzone_rest)
  then show ?thesis by simp
qed

lemma sample_no_modifier: "\<not> mapping_eq sample_decls KeyA (pad_circle_modifier sample_settings)"
  by (simp add: sample_decls_def sample_settings_def KeyA_def PadButton_def)

lemma sample_tick_up:
  "\<exists>c1. UpdateEmulatorInputs sample_decls sample_settings [[(KeyA, 1)]] stick_core = Inr c1
        \<and> circle_pad c1 = (0, word_of_int 156)
        \<and> key_mappings c1 = key_mappings stick_core"
proof (rule tick_up [OF _ _ sample_no_modifier])
  show "key_mappings stick_core KeyA = Some [PAD_CIRCLE_UP sample_decls]"
    by (simp add: stick_core_def)
  show "pad_circle_deadzone sample_settings = 1 / 10"
    by (simp add: sample_settings_def)
  show "MAX_CIRCLEPAD_POS sample_decls = real_of_int 156"
    by (simp add: sample_decls_def)
qed simp_all

text \<open>
  Claim C2, as stated: after the tick fed strength 1.0 the cache is approximately
  \<open>(0, -1 * MAX_CIRCLEPAD_POS)\<close>. On the sample configuration, where the full scale is
  156, the cache holds \<open>(0, 156)\<close>.
\<close>

theorem circle_pad_up_counterexample:
  "\<not> isl (UpdateEmulatorInputs sample_decls sample_settings [[(KeyA, 1)]] stick_core)
   \<and> sint (fst (circle_pad (projr
        (UpdateEmulatorInputs sample_decls sample_settings [[(KeyA, 1)]] stick_core)))) = 0
   \<and> sint (snd (circle_pad (projr
        (UpdateEmulatorInputs sample_decls sample_settings [[(KeyA, 1)]] stick_core)))) = 156
   \<and> MAX_CIRCLEPAD_POS sample_decls = 156"
proof -
  obtain c1 where c1:
    "UpdateEmulatorInputs sample_decls sample_settings [[(KeyA, 1)]] stick_core = Inr c1"
    "circle_pad c1 = (0, word_of_int 156)"
    using sample_tick_up by blast
  have "MAX_CIRCLEPAD_POS sample_decls = 156" by (simp add: sample_decls_def)
  then show ?thesis by (simp add: c1)
qed

text \<open>
  Claim C2, amended. With exactly one mapping, of \<open>k\<close> to the Up direction, deadzone 0.1,
  \<open>k\<close> not the modifier and a full scale \<open>M\<close> that fits an \<open>s16\<close>: the tick fed strength 1.0
  sets the cache to \<open>(0, M)\<close>, the Y value positive, and the next tick fed strength 0.0
  sets it to \<open>(0, 0)\<close>.
\<close>

theorem circle_pad_up_then_rest:
  assumes "key_mappings c = [k \<mapsto> [PAD_CIRCLE_UP D]]"
    and "pad_circle_deadzone V = 1 / 10"
    and "\<not> mapping_eq D k (pad_circle_modifier V)"
    and "MAX_CIRCLEPAD_POS D = of_int M" and "- 32768 \<le> M" and "M \<le> 32767"
  shows "\<exists>c1 c2. UpdateEmulatorInputs D V [[(k, 1)]] c = Inr c1
            \<and> sint (fst (circle_pad c1)) = 0 \<and> sint (snd (circle_pad c1)) = M
            \<and> UpdateEmulatorInputs D V [[(k, 0)]] c1 = Inr c2
            \<and> circle_pad c2 = (0, 0)"
proof -
  have k: "key_mappings c k = Some [PAD_CIRCLE_UP D]" using assms(1) by simp
  obtain c1 where c1: "UpdateEmulatorInputs D V [[(k, 1)]] c = Inr c1"
    "circle_pad c1 = (0, word_of_int M)" "key_mappings c1 = key_mappings c"
    using tick_up [OF k assms(2-6)] by blast
  have k1: "key_mappings c1 k = Some [PAD_CIRCLE_UP D]" by (simp add: c1(3) k)
  obtain c2 where c2: "UpdateEmulatorInputs D V [[(k, 0)]] c1 = Inr c2" "circle_pad c2 = (0, 0)"
    using tick_rest [OF k1 assms(2,3)] by blast
  show ?thesis using c1 c2 sint_s16 [OF assms(5,6)] by simp
qed

theorem circle_pad_up_then_rest_witness:
  "\<exists>c1 c2. UpdateEmulatorInputs sample_decls sample_settings [[(KeyA, 1)]] stick_core = Inr c1
        \<and> sint (fst (circle_pad c1)) = 0 \<and> sint (snd (circle_pad c1)) = 156
        \<and> UpdateEmulatorInputs sample_decls sample_settings [[(KeyA, 0)]] c1 = Inr c2
        \<and> circle_pad c2 = (0, 0)"
proof (rule circle_pad_up_then_rest [OF _ _ sample_no_modifier])
  show "key_mappings stick_core = [KeyA \<mapsto> [PAD_CIRCLE_UP sample_decls]]"
    by (simp add: stick_core_def)
  show "pad_circle_deadzone sample_settings = 1 / 10"
    by (simp add: sample_settings_def)
  show "MAX_CIRCLEPAD_POS sample_decls = real_of_int 156"
    by (simp add: sample_decls_def)
qed simp_all

subsection \<open>The digital pass under repeated identical input\<close>

lemma map_index_fst: "fst (map_index [] km k) = targets_of km k"
  by (simp add: map_index_def targets_of_def split: option.splits)

lemma map_index_snd: "snd (map_index d m k) = map_emplace m k d"
  by (simp add: map_index_def map_emplace_def split: option.splits)

lemma targets_of_emplace [simp]: "targets_of (map_emplace km k []) k' = targets_of km k'"
  by (simp add: targets_of_def map_emplace_def split: option.splits)

lemma digital_target_snd:
  "snd (digital_target D s e (pad, kp)) = (if e \<in> set (analog_inputs D) then kp else kp(e \<mapsto> is_pressed D s))"
  by (auto simp: is_pressed_def map_index_def split: option.splits)

declare digital_target.simps [simp del]

lemma digital_target_settled:
  "e \<notin> set (analog_inputs D) \<longrightarrow> kp e = Some (is_pressed D s) \<Longrightarrow> digital_target D s e (pad, kp) = (pad, kp)"
  by (auto simp: digital_target.simps is_pressed_def map_index_def split: option.splits)

lemma fold_target_settled:
  "\<forall>e \<in> set es. e \<notin> set (analog_inputs D) \<longrightarrow> kp e = Some (is_pressed D s) \<Longrightarrow>
   fold (digital_target D s) es (pad, kp) = (pad, kp)"
  by (induction es) (simp_all add: digital_target_settled)

lemma fold_target_snd:
  "snd (fold (digital_target D s) es (pad, kp)) =
   (\<lambda>e. if e \<in> set es \<and> e \<notin> set (analog_inputs D) then Some (is_pressed D s) else kp e)"
proof (induction es arbitrary: pad kp)
  case Nil
  then show ?case by simp
next
  case (Cons e es)
  obtain pad1 kp1 where st: "digital_target D s e (pad, kp) = (pad1, kp1)" by fastforce
  have kp1: "kp1 = (if e \<in> set (analog_inputs D) then kp else kp(e \<mapsto> is_pressed D s))"
    using digital_target_snd[of D s e pad kp] st by simp
  show ?case using Cons.IH[of pad1 kp1] by (auto simp: st kp1)
qed

lemma digital_button_eq:
  "digital_button D (k, s) (km, pad, kp) =
     (map_emplace km k [], fold (digital_target D s) (targets_of km k) (pad, kp))"
proof -
  obtain es km' where mi: "map_index [] km k = (es, km')" by fastforce
  have "es = targets_of km k" "km' = map_emplace km k []"
    using map_index_fst[of km k] map_index_snd[of "[]" km k] by (simp_all add: mi)
  then show ?thesis by (simp add: mi split: prod.splits)
qed

lemma digital_button_km:
  "fst (digital_button D (k, s) acc) = map_emplace (fst acc) k []"
  by (cases acc) (simp add: digital_button_eq del: digital_button.simps)

lemma digital_button_kp:
  "snd (snd (digital_button D (k, s) acc)) =
   (\<lambda>e. if e \<in> set (targets_of (fst acc) k) \<and> e \<notin> set (analog_inputs D)
        then Some (is_pressed D s) else snd (snd acc) e)"
  by (cases acc) (auto simp add: digital_button_eq fold_target_snd simp del: digital_button.simps)

lemma map_emplace_present [simp]: "map_emplace m k v k \<noteq> None"
  by (simp add: map_emplace_def split: option.splits)

lemma map_emplace_keeps: "m k' \<noteq> None \<Longrightarrow> map_emplace m k v k' \<noteq> None"
  by (simp add: map_emplace_def split: option.splits)

lemma map_emplace_id: "m k \<noteq> None \<Longrightarrow> map_emplace m k v = m"
  by (auto simp: map_emplace_def split: option.splits)

lemma fold_button_targets:
  "targets_of (fst (fold (digital_button D) xs acc)) k' = targets_of (fst acc) k'"
proof (induction xs arbitrary: acc)
  case Nil
  then show ?case by simp
next
  case (Cons x xs)
  obtain k s where x: "x = (k, s)" by fastforce
  show ?case using Cons.IH[of "digital_button D (k, s) acc"]
    by (simp add: x digital_button_km del: digital_button.simps)
qed

lemma fold_button_dom:
  "fst acc k' \<noteq> None \<Longrightarrow> fst (fold (digital_button D) xs acc) k' \<noteq> None"
proof (induction xs arbitrary: acc)
  case Nil
  then show ?case by simp
next
  case (Cons x xs)
  obtain k s where x: "x = (k, s)" by fastforce
  have "fst (digital_button D (k, s) acc) k' \<noteq> None"
    using Cons.prems by (simp add: digital_button_km map_emplace_keeps)
  then show ?case using Cons.IH[of "digital_button D (k, s) acc"]
    by (simp add: x del: digital_button.simps)
qed

lemma fold_button_latched:
  assumes "\<forall>i \<in> set xs. snd i = s" and "snd (snd acc) e = Some (is_pressed D s)"
  shows "snd (snd (fold (digital_button D) xs acc)) e = Some (is_pressed D s)"
  using assms
proof (induction xs arbitrary: acc)
  case Nil
  then show ?case by simp
next
  case (Cons x xs)
  obtain k where x: "x = (k, s)" using Cons.prems(1) by (cases x) simp
  have "snd (snd (digital_button D (k, s) acc)) e = Some (is_pressed D s)"
    using Cons.prems(2) by (simp add: digital_button_kp)
  then show ?case using Cons.IH[of "digital_button D (k, s) acc"] Cons.prems(1)
    by (simp add: x del: digital_button.simps)
qed

lemma fold_button_present:
  assumes "i \<in> set xs"
  shows "fst (fold (digital_button D) xs acc) (fst i) \<noteq> None"
  using assms
proof (induction xs arbitrary: acc)
  case Nil
  then show ?case by simp
next
  case (Cons x xs)
  obtain k s where x: "x = (k, s)" by fastforce
  let ?acc1 = "digital_button D (k, s) acc"
  show ?case
  proof (cases "i = x")
    case True
    have "fst ?acc1 k \<noteq> None" by (simp add: digital_button_km)
    then show ?thesis using fold_button_dom[of ?acc1 k D xs]
      by (simp add: x True del: digital_button.simps)
  next
    case False
    then have "i \<in> set xs" using Cons.prems by simp
    then show ?thesis using Cons.IH[of ?acc1]
      by (simp add: x del: digital_button.simps)
  qed
qed

lemma fold_button_establishes:
  assumes "\<forall>i \<in> set xs. snd i = s" and "i \<in> set xs"
    and "e \<in> set (targets_of (fst acc) (fst i))" and "e \<notin> set (analog_inputs D)"
  shows "snd (snd (fold (digital_button D) xs acc)) e = Some (is_pressed D s)"
  using assms
proof (induction xs arbitrary: acc)
  case Nil
  then show ?case by simp
next
  case (Cons x xs)
  obtain k where x: "x = (k, s)" using Cons.prems by (cases x) simp
  let ?acc1 = "digital_button D (k, s) acc"
  have all: "\<forall>i \<in> set xs. snd i = s" using Cons.prems by simp
  show ?case
  proof (cases "i = x")
    case True
    have "snd (snd ?acc1) e = Some (is_pressed D s)"
      using Cons.prems by (simp add: digital_button_kp True x)
    then show ?thesis using fold_button_latched[OF all, of ?acc1 e D]
      by (simp add: x del: digital_button.simps)
  next
    case False
    then have i: "i \<in> set xs" using Cons.prems by simp
    have "e \<in> set (targets_of (fst ?acc1) (fst i))"
      using Cons.prems by (simp add: digital_button_km)
    then show ?thesis using Cons.IH[OF all i _ Cons.prems(4), of ?acc1]
      by (simp add: x del: digital_button.simps)
  qed
qed

lemma fold_button_settled:
  assumes "\<forall>i \<in> set xs. snd i = s \<and> fst acc (fst i) \<noteq> None
             \<and> (\<forall>e \<in> set (targets_of (fst acc) (fst i)).
                   e \<notin> set (analog_inputs D) \<longrightarrow> snd (snd acc) e = Some (is_pressed D s))"
  shows "fold (digital_button D) xs acc = acc"
  using assms
proof (induction xs)
  case Nil
  then show ?case by simp
next
  case (Cons x xs)
  obtain k where x: "x = (k, s)" using Cons.prems by (cases x) simp
  obtain km pad kp where acc: "acc = (km, pad, kp)" by (cases acc) auto
  have "digital_button D (k, s) acc = acc"
    using Cons.prems by (simp add: acc x digital_button_eq map_emplace_id fold_target_settled del: digital_button.simps)
  then show ?case using Cons by (simp add: x del: digital_button.simps)
qed

lemma fold_button_idem:
  assumes "\<forall>i \<in> set xs. snd i = s"
  shows "fold (digital_button D) xs (fold (digital_button D) xs acc) = fold (digital_button D) xs acc"
proof (rule fold_button_settled[where s = s])
  show "\<forall>i\<in>set xs. snd i = s \<and> fst (fold (digital_button D) xs acc) (fst i) \<noteq> None \<and>
       (\<forall>e\<in>set (targets_of (fst (fold (digital_button D) xs acc)) (fst i)).
           e \<notin> set (analog_inputs D) \<longrightarrow>
           snd (snd (fold (digital_button D) xs acc)) e = Some (is_pressed D s))"
    using assms fold_button_establishes[OF assms, where D = D and acc = acc]
      fold_button_present[where xs = xs and D = D and acc = acc]
    by (simp add: fold_button_targets)
qed

lemma digital_pass_concat: "digital_pass D inputs acc = fold (digital_button D) (concat inputs) acc"
  unfolding digital_pass_def by (induction inputs arbitrary: acc) simp_all

text \<open>
  Claim C4. When every sample of the snapshots carries the same strength \<open>s\<close>, running the
  digital pass \<open>N > 1\<close> times in a row leaves the pad bits, the latch and the mapping table
  exactly as the first pass left them: whatever transition the first pass makes, the
  repeats make none.
\<close>

theorem digital_pass_repeat:
  assumes "\<forall>input_device \<in> set inputs. \<forall>button_states \<in> set input_device. snd button_states = s"
    and "N > 1"
  shows "(digital_pass D inputs ^^ N) acc = digital_pass D inputs acc"
proof -
  have all: "\<forall>i \<in> set (concat inputs). snd i = s" using assms(1) by auto
  have "(digital_pass D inputs ^^ Suc n) acc = digital_pass D inputs acc" for n
  proof (induction n)
    case 0
    then show ?case by simp
  next
    case (Suc n)
    then show ?case
      using fold_button_idem [OF all, of D acc] by (simp add: digital_pass_concat)
  qed
  then show ?thesis using assms(2) by (cases N) simp_all
qed

lemma sample_digital_pass:
  "fst (snd (digital_pass sample_decls [[(KeyA, 1), (KeyB, 1)]]
      (key_mappings sample_core, \<lparr>hex = 0\<rparr>, Map.empty))) = \<lparr>hex = 3\<rparr>"
  by (simp add: digital_pass_def digital_target.simps map_index_def sample_core_def
      sample_decls_def KeyA_def KeyB_def PAD_A_def PAD_B_def)

theorem digital_pass_repeat_witness:
  "(digital_pass sample_decls [[(KeyA, 1), (KeyB, 1)]] ^^ 3)
       (key_mappings sample_core, \<lparr>hex = 0\<rparr>, Map.empty)
     = digital_pass sample_decls [[(KeyA, 1), (KeyB, 1)]]
         (key_mappings sample_core, \<lparr>hex = 0\<rparr>, Map.empty)
   \<and> fst (snd ((digital_pass sample_decls [[(KeyA, 1), (KeyB, 1)]] ^^ 3)
         (key_mappings sample_core, \<lparr>hex = 0\<rparr>, Map.empty))) = \<lparr>hex = 3\<rparr>"
proof -
  have same: "\<forall>input_device \<in> set [[(KeyA, 1::real), (KeyB, 1)]].
      \<forall>button_states \<in> set input_device. snd button_states = 1"
    by simp
  have three: "(1::nat) < 3" by simp
  show ?thesis
    using digital_pass_repeat [OF same three, of sample_decls
        "(key_mappings sample_core, \<lparr>hex = 0\<rparr>, Map.empty)"]
      sample_digital_pass
    by simp
qed

subsection \<open>ReloadSettings\<close>

lemma generate_devices_frame:
  "generate_devices ms input c = Inr c' \<Longrightarrow>
   keys_pressed c' = keys_pressed c \<and> pad_state c' = pad_state c
   \<and> circle_pad c' = circle_pad c \<and> key_mappings c' = key_mappings c"
proof (induction ms arbitrary: input c)
  case Nil
  then show ?case by simp
next
  case (Cons mapping rest)
  then show ?case
    by (fastforce split: DeviceFramework.splits if_splits option.splits prod.splits)
qed

lemma BuildKeyMapping_frame:
  "BuildKeyMapping D V c = Inr c' \<Longrightarrow>
   keys_pressed c' = keys_pressed c \<and> pad_state c' = pad_state c \<and> circle_pad c' = circle_pad c"
  by (auto simp: BuildKeyMapping_def split: sum.splits)

lemma ParseSettings_frame:
  assumes "ParseSettings D V c = Inr c'"
  shows "keys_pressed c' = keys_pressed c \<and> pad_state c' = pad_state c \<and> circle_pad c' = circle_pad c"
proof -
  obtain c1 where g: "GenerateUniqueDevices D V c = Inr c1" and b: "BuildKeyMapping D V c1 = Inr c'"
    using assms by (auto simp: ParseSettings_def split: sum.splits)
  have "keys_pressed c1 = keys_pressed c \<and> pad_state c1 = pad_state c \<and> circle_pad c1 = circle_pad c"
    using generate_devices_frame [of "GatherUniqueMappings D V" None "c\<lparr>devices := []\<rparr>" c1] g
    by (simp add: GenerateUniqueDevices_def)
  then show ?thesis using BuildKeyMapping_frame [OF b] by simp
qed

lemma ReloadSettings_frame:
  assumes "ReloadSettings D V c = Inr c'"
  shows "keys_pressed c' = keys_pressed c \<and> pad_state c' = pad_state c \<and> circle_pad c' = circle_pad c"
proof (cases "devices c = []")
  case True
  then show ?thesis using assms by (simp add: ReloadSettings_def)
next
  case False
  then have "ParseSettings D V (c\<lparr>devices := []\<rparr>) = Inr c'"
    using assms by (simp add: ReloadSettings_def)
  then show ?thesis using ParseSettings_frame by fastforce
qed

text \<open>Reloading the sample engine succeeds: two devices are made and two keys are mapped.\<close>

lemma sample_unique_mappings: "GatherUniqueMappings sample_decls sample_settings = [KeyA, KeyB, PadButton]"
  by (simp add: GatherUniqueMappings_def CheckIfMappingExists_def sample_decls_def
      sample_settings_def KeyA_def KeyB_def PadButton_def)

lemma sample_generate_devices:
  "GenerateUniqueDevices sample_decls sample_settings (sample_core\<lparr>devices := []\<rparr>)
   = Inr (sample_core\<lparr>devices := [KeyboardDevice 2, KeyboardDevice 3, SDLJoystickDevice 4],
                      main_keyboard := Some (KeyboardDevice 3), next_device := 5\<rparr>)"
  unfolding GenerateUniqueDevices_def sample_unique_mappings
  by (simp add: sample_core_def KeyA_def KeyB_def PadButton_def)

lemma build_entries_in_range:
  "length ks \<le> length targets \<Longrightarrow> \<not> isl (build_entries ks targets km)"
  by (induction ks targets km rule: build_entries.induct) (simp_all split: prod.splits)

lemma sample_build_entries:
  "\<not> isl (build_entries (input_mappings sample_settings) (mapping_targets sample_decls) Map.empty)"
  by (rule build_entries_in_range) (simp add: sample_settings_def sample_decls_def)

lemma sample_build_key_mapping:
  "\<not> isl (BuildKeyMapping sample_decls sample_settings c)
   \<and> devices (projr (BuildKeyMapping sample_decls sample_settings c)) = devices c"
  using sample_build_entries by (auto simp: BuildKeyMapping_def split: sum.splits)

lemma sample_reload_devices:
  "\<not> isl (ReloadSettings sample_decls sample_settings sample_core)
   \<and> devices (projr (ReloadSettings sample_decls sample_settings sample_core))
       = [KeyboardDevice 2, KeyboardDevice 3, SDLJoystickDevice 4]"
proof -
  have d: "devices sample_core \<noteq> []" by (simp add: sample_core_def)
  show ?thesis
    using sample_build_key_mapping
      [of "sample_core\<lparr>devices := [KeyboardDevice 2, KeyboardDevice 3, SDLJoystickDevice 4],
                        main_keyboard := Some (KeyboardDevice 3), next_device := 5\<rparr>"]
    by (simp add: ReloadSettings_def d ParseSettings_def sample_generate_devices)
qed

text \<open>
  Claim C1, as stated: after \<open>ReloadSettings\<close> on an engine with a device the latch is
  empty. The sample engine has two devices and \<open>PAD_A\<close> latched as pressed; after the
  reload \<open>PAD_A\<close> is still latched as pressed.
\<close>

theorem ReloadSettings_latch_counterexample:
  "devices sample_core \<noteq> []
   \<and> \<not> isl (ReloadSettings sample_decls sample_settings sample_core)
   \<and> keys_pressed (projr (ReloadSettings sample_decls sample_settings sample_core)) PAD_A = Some True"
proof -
  have ok: "ReloadSettings sample_decls sample_settings sample_core
            = Inr (projr (ReloadSettings sample_decls sample_settings sample_core))"
    using sample_reload_devices by simp
  have "keys_pressed (projr (ReloadSettings sample_decls sample_settings sample_core))
        = keys_pressed sample_core"
    using ReloadSettings_frame [OF ok] by simp
  then show ?thesis using sample_reload_devices by (simp add: sample_core_def)
qed

text \<open>
  Claim C1, amended. When \<open>ReloadSettings\<close> completes on an engine with at least one
  registered device, the latch \<open>keys_pressed\<close> and the pad bits are the ones the engine had
  before the call: a target latched as pressed stays latched. The call rebuilds the device
  registry and the mapping table only.
\<close>

theorem ReloadSettings_keeps_latch:
  assumes "devices c \<noteq> []" and "ReloadSettings D V c = Inr c'"
  shows "keys_pressed c' = keys_pressed c \<and> pad_state c' = pad_state c"
  using ReloadSettings_frame [OF assms(2)] by simp

theorem ReloadSettings_keeps_latch_witness:
  "devices sample_core \<noteq> []
   \<and> ReloadSettings sample_decls sample_settings sample_core
       = Inr (projr (ReloadSettings sample_decls sample_settings sample_core))
   \<and> keys_pressed (projr (ReloadSettings sample_decls sample_settings sample_core))
       = keys_pressed sample_core
   \<and> pad_state (projr (ReloadSettings sample_decls sample_settings sample_core))
       = pad_state sample_core"
proof -
  have d: "devices sample_core \<noteq> []" by (simp add: sample_core_def)
  have ok: "ReloadSettings sample_decls sample_settings sample_core
            = Inr (projr (ReloadSettings sample_decls sample_settings sample_core))"
    using sample_reload_devices by simp
  show ?thesis using ReloadSettings_keeps_latch [OF d ok] d ok by simp
qed

text \<open>
  Claim C8. On an engine with no registered device \<open>ReloadSettings\<close> returns at once; the
  engine it leaves is the engine it found: registry, mapping table, latch, pad state and
  circle-pad cache are all unchanged.
\<close>

theorem ReloadSettings_without_devices:
  assumes "devices c = []"
  shows "ReloadSettings D V c = Inr c"
  using assms by (simp add: ReloadSettings_def)

theorem ReloadSettings_without_devices_witness:
  "devices idle_core = [] \<and> ReloadSettings sample_decls sample_settings idle_core = Inr idle_core"
proof -
  have d: "devices idle_core = []" by (simp add: idle_core_def)
  show ?thesis using ReloadSettings_without_devices [OF d] d by simp
qed

subsection \<open>DetectInput\<close>

lemma dropped_in_iff:
  "dropped_in D h k \<longleftrightarrow> (\<exists>s. (k, s) \<in> set h \<and> s < input_detect_threshold D)"
  by (force simp: dropped_in_def list_ex_iff)

lemma dropped_in_append:
  "dropped_in D (h @ h') k \<longleftrightarrow> dropped_in D h k \<or> dropped_in D h' k"
  by (auto simp: dropped_in_def)

lemma dropped_in_single:
  "dropped_in D [(k, s)] k' \<longleftrightarrow> k = k' \<and> s < input_detect_threshold D"
  by (auto simp: dropped_in_def)

text \<open>The baseline: \<open>emplace\<close> keeps the first sample of every input.\<close>

lemma fold_emplace:
  "fold (\<lambda>i m. map_emplace m (fst i) (f (snd i))) xs m k =
   (case m k of Some v \<Rightarrow> Some v | None \<Rightarrow> map_option f (map_of xs k))"
  by (induction xs arbitrary: m) (auto simp: map_emplace_def split: option.splits)

lemma fold_fold_concat: "fold (fold f) xss m = fold f (concat xss) m"
  by (induction xss arbitrary: m) simp_all

lemma baseline_states_eq:
  "baseline_states D devs k =
   map_option (\<lambda>s. s > input_detect_threshold D) (map_of (concat devs) k)"
  unfolding baseline_states_def fold_fold_concat
  using fold_emplace [of "\<lambda>s. s > input_detect_threshold D" "concat devs" Map.empty k]
  by simp

lemma tracks_baseline: "tracks D W [] (baseline_states D (baseline_inputs W))"
  by (auto simp: tracks_def active_at_baseline_def baseline_states_eq dropped_in_def
      split: option.splits)

text \<open>One sample of the inner loop, by the three cases of its strength.\<close>

lemma scan_inputs_fresh:
  "s > input_detect_threshold D \<Longrightarrow> cur k \<noteq> Some True \<Longrightarrow>
   scan_inputs D ((k, s) # xs) cur = Inl k"
  by (auto simp: map_index_def split: option.splits)

lemma scan_inputs_held:
  "s > input_detect_threshold D \<Longrightarrow> cur k = Some True \<Longrightarrow>
   scan_inputs D ((k, s) # xs) cur = scan_inputs D xs cur"
  by (auto simp: map_index_def split: option.splits)

lemma scan_inputs_low:
  assumes "\<not> s > input_detect_threshold D"
  shows "\<exists>cur1. scan_inputs D ((k, s) # xs) cur = scan_inputs D xs cur1
     \<and> (\<forall>k'. (cur1 k' = Some True) =
              (cur k' = Some True \<and> \<not> (k' = k \<and> s < input_detect_threshold D)))"
proof (cases "s < input_detect_threshold D")
  case True
  show ?thesis
  proof (cases "cur k")
    case None
    then have "scan_inputs D ((k, s) # xs) cur = scan_inputs D xs (cur(k \<mapsto> False))"
      using True assms by (simp add: map_index_def)
    then show ?thesis using None True
      by (intro exI [of _ "cur(k \<mapsto> False)"]) (auto simp del: scan_inputs.simps)
  next
    case (Some v)
    have "cur(k \<mapsto> False) = cur" if "\<not> v"
      using that Some by (auto simp: fun_eq_iff)
    then have "scan_inputs D ((k, s) # xs) cur = scan_inputs D xs (cur(k \<mapsto> False))"
      using True assms Some by (cases v) (simp_all add: map_index_def)
    then show ?thesis using True
      by (intro exI [of _ "cur(k \<mapsto> False)"]) (auto simp del: scan_inputs.simps)
  qed
next
  case False
  then have "scan_inputs D ((k, s) # xs) cur = scan_inputs D xs cur"
    using assms by simp
  then show ?thesis using False
    by (intro exI [of _ cur]) (auto simp del: scan_inputs.simps)
qed

lemma tracks_step:
  assumes "tracks D W h cur"
    and "\<forall>k'. (cur1 k' = Some True) =
              (cur k' = Some True \<and> \<not> (k' = k \<and> s < input_detect_threshold D))"
  shows "tracks D W (h @ [(k, s)]) cur1"
  using assms unfolding tracks_def dropped_in_append dropped_in_single by auto

declare scan_inputs.simps(2) [simp del]

lemma scan_inputs_Inl:
  assumes "tracks D W h cur" and "scan_inputs D xs cur = Inl k"
  shows "\<exists>pre s post. xs = pre @ (k, s) # post \<and> s > input_detect_threshold D
           \<and> \<not> (active_at_baseline D (baseline_inputs W) k \<and> \<not> dropped_in D (h @ pre) k)"
  using assms
proof (induction xs arbitrary: h cur)
  case Nil
  then show ?case by simp
next
  case (Cons i xs)
  obtain k0 s0 where i: "i = (k0, s0)" by fastforce
  show ?case
  proof (cases "s0 > input_detect_threshold D")
    case True
    show ?thesis
    proof (cases "cur k0 = Some True")
      case held: True
      have t: "tracks D W (h @ [(k0, s0)]) cur"
        using tracks_step [OF Cons.prems(1), of cur k0 s0] True by simp
      have "scan_inputs D xs cur = Inl k"
        using Cons.prems(2) scan_inputs_held [where cur = cur and k = k0, OF True held] by (simp add: i)
      from Cons.IH [OF t this] obtain pre s post where
        "xs = pre @ (k, s) # post" "s > input_detect_threshold D"
        "\<not> (active_at_baseline D (baseline_inputs W) k \<and> \<not> dropped_in D ((h @ [(k0, s0)]) @ pre) k)"
        by blast
      then show ?thesis
        by (intro exI [of _ "(k0, s0) # pre"] exI [of _ s] exI [of _ post]) (simp add: i)
    next
      case fresh: False
      have "k = k0" using Cons.prems(2) scan_inputs_fresh [where cur = cur and k = k0, OF True fresh] by (simp add: i)
      moreover have "\<not> (active_at_baseline D (baseline_inputs W) k0 \<and> \<not> dropped_in D h k0)"
        using Cons.prems(1) fresh by (simp add: tracks_def)
      ultimately show ?thesis using True
        by (intro exI [of _ "[]"] exI [of _ s0] exI [of _ xs]) (simp add: i)
    qed
  next
    case False
    obtain cur1 where c: "scan_inputs D ((k0, s0) # xs) cur = scan_inputs D xs cur1"
      "\<forall>k'. (cur1 k' = Some True) =
            (cur k' = Some True \<and> \<not> (k' = k0 \<and> s0 < input_detect_threshold D))"
      using scan_inputs_low [OF False] by blast
    have t: "tracks D W (h @ [(k0, s0)]) cur1"
      using tracks_step [OF Cons.prems(1) c(2)] .
    have "scan_inputs D xs cur1 = Inl k" using Cons.prems(2) c(1) by (simp add: i)
    from Cons.IH [OF t this] obtain pre s post where
      "xs = pre @ (k, s) # post" "s > input_detect_threshold D"
      "\<not> (active_at_baseline D (baseline_inputs W) k \<and> \<not> dropped_in D ((h @ [(k0, s0)]) @ pre) k)"
      by blast
    then show ?thesis
      by (intro exI [of _ "(k0, s0) # pre"] exI [of _ s] exI [of _ post]) (simp add: i)
  qed
qed

lemma scan_inputs_Inr:
  assumes "tracks D W h cur" and "scan_inputs D xs cur = Inr cur'"
  shows "tracks D W (h @ xs) cur'"
  using assms
proof (induction xs arbitrary: h cur)
  case Nil
  then show ?case by simp
next
  case (Cons i xs)
  obtain k0 s0 where i: "i = (k0, s0)" by fastforce
  show ?case
  proof (cases "s0 > input_detect_threshold D")
    case True
    show ?thesis
    proof (cases "cur k0 = Some True")
      case held: True
      have t: "tracks D W (h @ [(k0, s0)]) cur"
        using tracks_step [OF Cons.prems(1), of cur k0 s0] True by simp
      have "scan_inputs D xs cur = Inr cur'"
        using Cons.prems(2) scan_inputs_held [where cur = cur and k = k0, OF True held] by (simp add: i)
      from Cons.IH [OF t this] show ?thesis by (simp add: i)
    next
      case fresh: False
      then show ?thesis using Cons.prems(2) scan_inputs_fresh [where cur = cur and k = k0, OF True fresh] by (simp add: i)
    qed
  next
    case False
    obtain cur1 where c: "scan_inputs D ((k0, s0) # xs) cur = scan_inputs D xs cur1"
      "\<forall>k'. (cur1 k' = Some True) =
            (cur k' = Some True \<and> \<not> (k' = k0 \<and> s0 < input_detect_threshold D))"
      using scan_inputs_low [OF False] by blast
    have t: "tracks D W (h @ [(k0, s0)]) cur1"
      using tracks_step [OF Cons.prems(1) c(2)] .
    have "scan_inputs D xs cur1 = Inr cur'" using Cons.prems(2) c(1) by (simp add: i)
    from Cons.IH [OF t this] show ?thesis by (simp add: i)
  qed
qed

lemma scan_inputs_quiet:
  assumes "tracks D W h cur"
    and "\<forall>pre k s post. xs = pre @ (k, s) # post \<and> s > input_detect_threshold D \<longrightarrow>
           active_at_baseline D (baseline_inputs W) k \<and> \<not> dropped_in D (h @ pre) k"
  shows "\<not> isl (scan_inputs D xs cur)"
proof (cases "scan_inputs D xs cur")
  case (Inl k)
  from scan_inputs_Inl [OF assms(1) Inl] assms(2) show ?thesis by blast
next
  case (Inr cur')
  then show ?thesis by simp
qed

text \<open>The same for the scan of all devices of one round.\<close>

lemma scan_devices_Inl:
  assumes "tracks D W h cur" and "scan_devices D devs cur = Inl k"
  shows "\<exists>pre s post. concat devs = pre @ (k, s) # post \<and> s > input_detect_threshold D
           \<and> \<not> (active_at_baseline D (baseline_inputs W) k \<and> \<not> dropped_in D (h @ pre) k)"
  using assms
proof (induction devs arbitrary: h cur)
  case Nil
  then show ?case by simp
next
  case (Cons xs devs)
  show ?case
  proof (cases "scan_inputs D xs cur")
    case (Inl k')
    then have "k' = k" using Cons.prems(2) by simp
    with scan_inputs_Inl [OF Cons.prems(1) Inl] obtain pre s post where
      "xs = pre @ (k, s) # post" "s > input_detect_threshold D"
      "\<not> (active_at_baseline D (baseline_inputs W) k \<and> \<not> dropped_in D (h @ pre) k)"
      by blast
    then show ?thesis
      by (intro exI [of _ pre] exI [of _ s] exI [of _ "post @ concat devs"]) simp
  next
    case (Inr cur')
    have t: "tracks D W (h @ xs) cur'" using scan_inputs_Inr [OF Cons.prems(1) Inr] .
    have "scan_devices D devs cur' = Inl k" using Cons.prems(2) Inr by simp
    from Cons.IH [OF t this] obtain pre s post where
      "concat devs = pre @ (k, s) # post" "s > input_detect_threshold D"
      "\<not> (active_at_baseline D (baseline_inputs W) k \<and> \<not> dropped_in D ((h @ xs) @ pre) k)"
      by blast
    then show ?thesis
      by (intro exI [of _ "xs @ pre"] exI [of _ s] exI [of _ post]) simp
  qed
qed

lemma scan_devices_Inr:
  assumes "tracks D W h cur" and "scan_devices D devs cur = Inr cur'"
  shows "tracks D W (h @ concat devs) cur'"
  using assms
proof (induction devs arbitrary: h cur)
  case Nil
  then show ?case by simp
next
  case (Cons xs devs)
  show ?case
  proof (cases "scan_inputs D xs cur")
    case (Inl k')
    then show ?thesis using Cons.prems(2) by simp
  next
    case (Inr cur1)
    have t: "tracks D W (h @ xs) cur1" using scan_inputs_Inr [OF Cons.prems(1) Inr] .
    have "scan_devices D devs cur1 = Inr cur'" using Cons.prems(2) Inr by simp
    from Cons.IH [OF t this] show ?thesis by simp
  qed
qed

lemma polled_before_Suc:
  "polled_before W (Suc n) = polled_before W n @ concat (polled W n)"
  by (simp add: polled_before_def)

text \<open>
  A return through line 231: the returned input was reported by a sample above the
  threshold at a moment when it was not active at the baseline or had been dropped.
\<close>

lemma detect_loop_Detected:
  assumes "detect_loop D W max_time input_device n cur = Some r"
  shows "tracks D W (polled_before W n) cur \<longrightarrow> (\<forall>k. fst r = Detected k \<longrightarrow>
     (\<exists>m pre s post. concat (polled W m) = pre @ (k, s) # post
        \<and> s > input_detect_threshold D
        \<and> \<not> (active_at_baseline D (baseline_inputs W) k
              \<and> \<not> dropped_in D (polled_before W m @ pre) k)))"
proof (rule detect_loop.raw_induct [OF _ assms], intro impI allI)
  fix f D W max_time input_device n cur r k
  assume IH: "\<And>D W max_time input_device n cur r.
      f D W max_time input_device n cur = Some r \<Longrightarrow>
      tracks D W (polled_before W n) cur \<longrightarrow> (\<forall>k. fst r = Detected k \<longrightarrow>
       (\<exists>m pre s post. concat (polled W m) = pre @ (k, s) # post
          \<and> s > input_detect_threshold D
          \<and> \<not> (active_at_baseline D (baseline_inputs W) k
                \<and> \<not> dropped_in D (polled_before W m @ pre) k)))"
    and body: "(if key input_device \<noteq> [] then Some (NothingDetected input_device, n)
      else if max_time \<le> elapsed W n then Some (NothingDetected input_device, Suc n)
      else case scan_devices D (polled W n) cur of
             Inl found \<Rightarrow> Some (Detected found, Suc n)
           | Inr cur' \<Rightarrow> f D W max_time input_device (Suc n) cur') = Some r"
    and t: "tracks D W (polled_before W n) cur"
    and r: "fst r = Detected k"
  have running: "key input_device = []" "\<not> max_time \<le> elapsed W n"
    using body r by (auto split: if_splits)
  show "\<exists>m pre s post. concat (polled W m) = pre @ (k, s) # post
          \<and> s > input_detect_threshold D
          \<and> \<not> (active_at_baseline D (baseline_inputs W) k
                \<and> \<not> dropped_in D (polled_before W m @ pre) k)"
  proof (cases "scan_devices D (polled W n) cur")
    case (Inl found)
    then have "found = k" using body r running by auto
    with scan_devices_Inl [OF t Inl] show ?thesis by blast
  next
    case (Inr cur')
    have t': "tracks D W (polled_before W (Suc n)) cur'"
      using scan_devices_Inr [OF t Inr] by (simp add: polled_before_Suc)
    have "f D W max_time input_device (Suc n) cur' = Some r"
      using body running Inr by simp
    from IH [OF this] t' r show ?thesis by blast
  qed
qed

lemma quiet_roundD:
  assumes "quiet_round D W j" and "concat (polled W j) = pre @ (k, s) # post"
    and "s > input_detect_threshold D"
  shows "active_at_baseline D (baseline_inputs W) k
         \<and> \<not> dropped_in D (polled_before W j @ pre) k"
proof -
  let ?xs = "concat (polled W j)"
  have "length pre < length ?xs" "?xs ! length pre = (k, s)" "take (length pre) ?xs = pre"
    by (simp_all add: assms(2))
  then show ?thesis
    using assms(1,3) unfolding quiet_round_def Let_def list_all_iff
    by (metis atLeastLessThan_iff fst_conv le0 set_upt snd_conv)
qed

text \<open>
  Running into the timeout: when round \<open>n\<close> is the first in which the clock has reached
  \<open>max_time\<close> and no round before it reports a fresh input, the loop started in round
  \<open>m \<le> n\<close> returns through line 237 in round \<open>n\<close>, having called \<open>update_gui\<close>
  \<open>n + 1\<close> times.
\<close>

lemma detect_loop_timeout:
  assumes "max_time \<le> elapsed W n" and "key input_device = []" and "m \<le> n"
    and "tracks D W (polled_before W m) cur"
    and "\<forall>j. m \<le> j \<and> j < n \<longrightarrow> elapsed W j < max_time \<and> quiet_round D W j"
  shows "detect_loop D W max_time input_device m cur = Some (NothingDetected input_device, Suc n)"
  using assms(3-5)
proof (induction "n - m" arbitrary: m cur)
  case 0
  then have "m = n" by simp
  then show ?case using assms(1,2) by (subst detect_loop.simps) simp
next
  case (Suc d)
  have mn: "m < n" using Suc.hyps(2) by simp
  have early: "\<not> max_time \<le> elapsed W m" using Suc.prems(3) mn by auto
  have quiet: "quiet_round D W m" using Suc.prems(3) mn by simp
  obtain cur' where sc: "scan_devices D (polled W m) cur = Inr cur'"
  proof (cases "scan_devices D (polled W m) cur")
    case (Inl k)
    from scan_devices_Inl [OF Suc.prems(2) Inl] quiet_roundD [OF quiet] show ?thesis by blast
  next
    case (Inr cur')
    then show ?thesis using that by simp
  qed
  have t': "tracks D W (polled_before W (Suc m)) cur'"
    using scan_devices_Inr [OF Suc.prems(2) sc] by (simp add: polled_before_Suc)
  have "detect_loop D W max_time input_device (Suc m) cur'
        = Some (NothingDetected input_device, Suc n)"
  proof (rule Suc.hyps(1))
    show "d = n - Suc m" using Suc.hyps(2) by simp
    show "Suc m \<le> n" using mn by simp
    show "tracks D W (polled_before W (Suc m)) cur'" by (rule t')
    show "\<forall>j. Suc m \<le> j \<and> j < n \<longrightarrow> elapsed W j < max_time \<and> quiet_round D W j"
      using Suc.prems(3) by simp
  qed
  then show ?case using early assms(2) sc by (subst detect_loop.simps) simp
qed

text \<open>
  Claim C6. When \<open>DetectInput\<close> returns an input \<open>k\<close> as detected (the return of line 231)
  and \<open>k\<close> was above the threshold at the baseline, then the sample that reported \<open>k\<close> was
  preceded, inside the loop, by a sample of \<open>k\<close> below the threshold: an input held since
  the baseline is not returned unless it dropped first.
\<close>

theorem DetectInput_baseline_suppression:
  assumes "DetectInput_return D W max_time = Some (Detected k)"
    and "active_at_baseline D (baseline_inputs W) k"
  shows "\<exists>m pre s post. concat (polled W m) = pre @ (k, s) # post
           \<and> s > input_detect_threshold D
           \<and> dropped_in D (polled_before W m @ pre) k"
proof -
  have "tracks D W (polled_before W 0) (baseline_states D (baseline_inputs W))"
    using tracks_baseline by (simp add: polled_before_def)
  moreover obtain r where "DetectInput_run D W max_time = Some r" and "fst r = Detected k"
    using assms(1) by (auto simp: DetectInput_return_def)
  ultimately show ?thesis
    using detect_loop_Detected [of D W max_time "default_mapping D" 0
        "baseline_states D (baseline_inputs W)" r] assms(2)
    unfolding DetectInput_run_def by blast
qed

lemma rearm_world_run:
  "DetectInput_run sample_decls rearm_world 50 = Some (Detected KeyA, 3)"
proof -
  have b: "baseline_states sample_decls (baseline_inputs rearm_world) = [KeyA \<mapsto> True]"
    by (simp add: baseline_states_def rearm_world_def sample_decls_def map_emplace_def)
  have r0: "scan_devices sample_decls (polled rearm_world 0) [KeyA \<mapsto> True] = Inr [KeyA \<mapsto> True]"
    by (simp add: rearm_world_def sample_decls_def scan_inputs.simps map_index_def)
  have r1: "scan_devices sample_decls (polled rearm_world 1) [KeyA \<mapsto> True] = Inr [KeyA \<mapsto> False]"
    by (simp add: rearm_world_def sample_decls_def scan_inputs.simps map_index_def)
  have r2: "scan_devices sample_decls (polled rearm_world 2) [KeyA \<mapsto> False] = Inl KeyA"
    by (simp add: rearm_world_def sample_decls_def scan_inputs.simps map_index_def)
  have e: "key (default_mapping sample_decls) = []" "\<not> 50 \<le> elapsed rearm_world 0"
    "\<not> 50 \<le> elapsed rearm_world 1" "\<not> 50 \<le> elapsed rearm_world 2"
    by (simp_all add: sample_decls_def rearm_world_def)
  have "detect_loop sample_decls rearm_world 50 (default_mapping sample_decls) 2 [KeyA \<mapsto> False]
        = Some (Detected KeyA, 3)"
    by (subst detect_loop.simps) (simp add: e r2)
  then have "detect_loop sample_decls rearm_world 50 (default_mapping sample_decls) 1 [KeyA \<mapsto> True]
        = Some (Detected KeyA, 3)"
    using r1 e by (subst detect_loop.simps) (simp add: numeral_2_eq_2)
  then have "detect_loop sample_decls rearm_world 50 (default_mapping sample_decls) 0 [KeyA \<mapsto> True]
        = Some (Detected KeyA, 3)"
    using r0 e by (subst detect_loop.simps) simp
  then show ?thesis by (simp add: DetectInput_run_def b)
qed

lemma rearm_world_return:
  "DetectInput_return sample_decls rearm_world 50 = Some (Detected KeyA)"
  by (simp add: DetectInput_return_def rearm_world_run)

theorem DetectInput_baseline_suppression_witness:
  "DetectInput_return sample_decls rearm_world 50 = Some (Detected KeyA)
   \<and> active_at_baseline sample_decls (baseline_inputs rearm_world) KeyA
   \<and> (\<exists>m pre s post. concat (polled rearm_world m) = pre @ (KeyA, s) # post
           \<and> s > input_detect_threshold sample_decls
           \<and> dropped_in sample_decls (polled_before rearm_world m @ pre) KeyA)"
proof -
  have a: "active_at_baseline sample_decls (baseline_inputs rearm_world) KeyA"
    by (simp add: active_at_baseline_def rearm_world_def sample_decls_def)
  show ?thesis
    using DetectInput_baseline_suppression [OF rearm_world_return a] rearm_world_return a
    by simp
qed

text \<open>
  Claim C9. Let round \<open>n\<close> be the first round in which the measured time has reached
  \<open>max_time\<close>, and let every round before it be quiet (no polled input crosses the
  threshold relative to its baseline). Then \<open>DetectInput\<close> returns, and it returns in
  round \<open>n\<close>, not earlier and not later: it has called \<open>update_gui\<close> exactly \<open>n + 1\<close>
  times, once in each of the rounds \<open>0\<close> to \<open>n\<close>. It leaves through line 237 with the
  default-constructed mapping, whose key is empty: no input detected.
\<close>

theorem DetectInput_timeout:
  assumes "max_time \<le> elapsed W n" and "\<forall>j<n. elapsed W j < max_time"
    and "\<forall>j<n. quiet_round D W j"
    and "key (default_mapping D) = []"
  shows "DetectInput_run D W max_time = Some (NothingDetected (default_mapping D), Suc n)
       \<and> DetectInput D W max_time = Some (default_mapping D)
       \<and> (\<exists>r. DetectInput D W max_time = Some r \<and> key r = [])"
proof -
  have t: "tracks D W (polled_before W 0) (baseline_states D (baseline_inputs W))"
    using tracks_baseline by (simp add: polled_before_def)
  have "DetectInput_run D W max_time = Some (NothingDetected (default_mapping D), Suc n)"
    unfolding DetectInput_run_def
    using detect_loop_timeout [OF assms(1) assms(4) _ t] assms(2,3) by simp
  then show ?thesis using assms(4) by (simp add: DetectInput_def DetectInput_return_def)
qed

lemma held_world_quiet: "quiet_round sample_decls held_world j"
proof -
  have "\<not> dropped_in sample_decls (polled_before held_world j) KeyA"
    by (auto simp: dropped_in_iff polled_before_def held_world_def sample_decls_def)
  moreover have "active_at_baseline sample_decls (baseline_inputs held_world) KeyA"
    by (simp add: active_at_baseline_def held_world_def sample_decls_def)
  moreover have "concat (polled held_world j) = [(KeyA, 1)]"
    by (simp add: held_world_def)
  ultimately show ?thesis by (simp add: quiet_round_def)
qed

theorem DetectInput_timeout_witness:
  "(50::int) \<le> elapsed held_world 3
   \<and> elapsed held_world 0 < 50 \<and> elapsed held_world 1 < 50 \<and> elapsed held_world 2 < 50
   \<and> quiet_round sample_decls held_world 0
   \<and> quiet_round sample_decls held_world 1
   \<and> quiet_round sample_decls held_world 2
   \<and> key (default_mapping sample_decls) = []
   \<and> DetectInput_run sample_decls held_world 50
       = Some (NothingDetected (default_mapping sample_decls), 4)
   \<and> DetectInput sample_decls held_world 50 = Some (default_mapping sample_decls)"
proof -
  have e: "(50::int) \<le> elapsed held_world 3" by (simp add: held_world_def)
  have early: "\<forall>j<3. elapsed held_world j < 50" by (auto simp: held_world_def)
  have q: "\<forall>j<3. quiet_round sample_decls held_world j" by (simp add: held_world_quiet)
  have k: "key (default_mapping sample_decls) = []" by (simp add: sample_decls_def)
  have "elapsed held_world 0 < 50 \<and> elapsed held_world 1 < 50 \<and> elapsed held_world 2 < 50"
    by (simp add: held_world_def)
  then show ?thesis
    using DetectInput_timeout [OF e early q k] e k by (simp add: held_world_quiet)
qed

end
